theory Spec2Isabelle
  imports Complex_Main "HOL-Library.Multiset"
begin

section \<open>Data model of green.py\<close>

text \<open>
  The program reads a CSV file with the columns latitude, longitude, poluicao and
  transito into a pandas DataFrame. A DataFrame is modelled as the list of its rows in
  frame order, each row paired with its index label; \<^verbatim>\<open>pd.read_csv\<close> gives the
  labels 0, 1, 2, ... The columns hold IEEE 754 binary64 numbers; a value is modelled
  as the real number it stands for.

  \<open>NonFinite\<close> in the type of errors is not a Python exception: numpy divides by zero
  without raising and gives inf or NaN. The frames of the model hold finite numbers only,
  so a load that would put inf or NaN into the frame is reported by this value.
\<close>

datatype error =
  ValueError | KeyError | IndexError | NetworkXError | NetworkXPointlessConcept | NonFinite

record row =
  latitude :: real
  longitude :: real
  poluicao :: real
  transito :: real

record scored = row +
  poluicao_norm :: real
  transito_norm :: real
  score :: real

type_synonym frame = "(nat \<times> scored) list"

section \<open>Arithmetic of binary64\<close>

text \<open>
  Every arithmetic operation of numpy on the columns gives the exact result rounded to
  the nearest binary64 number, a tie going to the number with the even significand.
  \<open>float64 x\<close> is that rounding: \<open>x\<close> is scaled by the power of two that brings
  its magnitude between \<open>2^52\<close> and \<open>2^53\<close>, rounded to an integer by \<open>rne\<close>, and
  scaled back. The exponent is taken as unbounded: overflow to infinity and the loss of
  precision of subnormal numbers are outside the model.
\<close>

definition rne :: "real \<Rightarrow> int" where
  "rne x = (if frac x < 1 / 2 then \<lfloor>x\<rfloor>
            else if 1 / 2 < frac x then \<lfloor>x\<rfloor> + 1
            else if even \<lfloor>x\<rfloor> then \<lfloor>x\<rfloor> else \<lfloor>x\<rfloor> + 1)"

definition exponent :: "real \<Rightarrow> int" where
  "exponent x = \<lfloor>log 2 \<bar>x\<bar>\<rfloor>"

definition float64 :: "real \<Rightarrow> real" where
  "float64 x = (if x = 0 then 0
     else of_int (rne (x * 2 powi (52 - exponent x))) * 2 powi (exponent x - 52))"

section \<open>carregar\_e\_processar\_dados\<close>

text \<open>
  \<^verbatim>\<open>MinMaxScaler()\<close> of scikit-learn with its default feature range (0, 1) and no
  clipping. Fitting computes, for each column, \<^verbatim>\<open>data_min\<close>, \<^verbatim>\<open>data_max\<close>,
  \<^verbatim>\<open>data_range = data_max - data_min\<close>,
  \<^verbatim>\<open>scale_ = (1 - 0) / _handle_zeros_in_scale(data_range)\<close> and
  \<^verbatim>\<open>min_ = 0 - data_min * scale_\<close>; transforming computes \<^verbatim>\<open>X *= scale_\<close> and then
  \<^verbatim>\<open>X += min_\<close>. Each of these operations rounds.
  \<^verbatim>\<open>_handle_zeros_in_scale\<close> replaces by 1 every range below ten machine epsilons
  (so also the range 0 of a constant column); this is what keeps the division from
  meeting a zero. \<open>np_divide\<close> is numpy's division: by zero it gives inf or NaN, which
  is \<open>None\<close> here. Line 21 then computes the score with one addition and one division.
  Fitting an array without rows raises ValueError.
\<close>

definition eps64 :: real where
  "eps64 = 1 / 2 ^ 52"

definition handle_zeros_in_scale :: "real \<Rightarrow> real" where
  "handle_zeros_in_scale s = (if s < 10 * eps64 then 1 else s)"

definition np_divide :: "real \<Rightarrow> real \<Rightarrow> real option" where
  "np_divide a b = (if b = 0 then None else Some (float64 (a / b)))"

definition data_min :: "real list \<Rightarrow> real" where
  "data_min xs = Min (set xs)"

definition data_max :: "real list \<Rightarrow> real" where
  "data_max xs = Max (set xs)"

definition data_range :: "real list \<Rightarrow> real" where
  "data_range xs = float64 (data_max xs - data_min xs)"

definition scale_of :: "real list \<Rightarrow> real option" where
  "scale_of xs = np_divide (1 - 0) (handle_zeros_in_scale (data_range xs))"

definition min_of :: "real list \<Rightarrow> real \<Rightarrow> real" where
  "min_of xs scale = float64 (0 - float64 (data_min xs * scale))"

definition transform :: "real list \<Rightarrow> real \<Rightarrow> real \<Rightarrow> real" where
  "transform xs scale x = float64 (float64 (x * scale) + min_of xs scale)"

definition add_scores :: "row list \<Rightarrow> real \<Rightarrow> real \<Rightarrow> row \<Rightarrow> scored" where
  "add_scores rs sp st r =
     (let pn = transform (map poluicao rs) sp (poluicao r);
          tn = transform (map transito rs) st (transito r)
      in \<lparr>latitude = latitude r, longitude = longitude r,
          poluicao = poluicao r, transito = transito r,
          poluicao_norm = pn, transito_norm = tn,
          score = float64 (float64 (pn + tn) / 2)\<rparr>)"

definition carregar_e_processar_dados :: "row list \<Rightarrow> error + frame" where
  "carregar_e_processar_dados rs =
     (if rs = [] then Inl ValueError
      else case scale_of (map poluicao rs) of
             None \<Rightarrow> Inl NonFinite
           | Some sp \<Rightarrow>
               (case scale_of (map transito rs) of
                  None \<Rightarrow> Inl NonFinite
                | Some st \<Rightarrow> Inr (zip [0..<length rs] (map (add_scores rs sp st) rs))))"

section \<open>encontrar\_melhor\_circuito: selection and distance graph\<close>

text \<open>
  \<^verbatim>\<open>df.nlargest(num_pontos, 'score')\<close> of pandas, with its default \<^verbatim>\<open>keep='first'\<close>:
  the first \<open>n\<close> rows of the frame ordered by descending score, rows of equal score
  staying in frame order. A count that is zero or negative gives the empty frame and a
  count above the number of rows gives all rows; nothing is raised.
\<close>

definition nlargest :: "int \<Rightarrow> frame \<Rightarrow> frame" where
  "nlargest n df = take (nat n) (sort_key (\<lambda>p. - score (snd p)) df)"

text \<open>
  Python dictionaries keep insertion order: storing under a key that is present
  replaces the value in place, storing under a new key appends.
\<close>

fun dict_set :: "'k \<Rightarrow> 'v \<Rightarrow> ('k \<times> 'v) list \<Rightarrow> ('k \<times> 'v) list" where
  "dict_set k v [] = [(k, v)]"
| "dict_set k v (p # ps) = (if fst p = k then (k, v) # ps else p # dict_set k v ps)"

definition dict_get :: "('k \<times> 'v list) list \<Rightarrow> 'k \<Rightarrow> 'v list" where
  "dict_get d k = (case map_of d k of None \<Rightarrow> [] | Some l \<Rightarrow> l)"

text \<open>
  \<^verbatim>\<open>nx.Graph\<close>: \<open>g_adj\<close> is the adjacency dictionary (node to neighbour to weight),
  whose keys are the nodes of the graph in insertion order; \<open>g_node\<close> holds the
  \<^verbatim>\<open>pos\<close> attribute of the nodes that were given one. \<^verbatim>\<open>add_edge\<close> adds missing
  endpoints and stores the weight under both directions.
\<close>

record graph =
  g_node :: "(nat \<times> real \<times> real) list"
  g_adj :: "(nat \<times> (nat \<times> real) list) list"

definition empty_graph :: graph where
  "empty_graph = \<lparr>g_node = [], g_adj = []\<rparr>"

definition nodes_of :: "graph \<Rightarrow> nat list" where
  "nodes_of G = map fst (g_adj G)"

definition ensure_node :: "nat \<Rightarrow> (nat \<times> (nat \<times> real) list) list \<Rightarrow> (nat \<times> (nat \<times> real) list) list" where
  "ensure_node n A = (if n \<in> fst ` set A then A else A @ [(n, [])])"

definition add_node :: "nat \<Rightarrow> real \<times> real \<Rightarrow> graph \<Rightarrow> graph" where
  "add_node n pos G = \<lparr>g_node = dict_set n pos (g_node G), g_adj = ensure_node n (g_adj G)\<rparr>"

definition add_edge :: "nat \<Rightarrow> nat \<Rightarrow> real \<Rightarrow> graph \<Rightarrow> graph" where
  "add_edge u v w G =
     (let A0 = ensure_node v (ensure_node u (g_adj G));
          A1 = dict_set u (dict_set v w (dict_get A0 u)) A0;
          A2 = dict_set v (dict_set u w (dict_get A1 v)) A1
      in G\<lparr>g_adj := A2\<rparr>)"

definition weight :: "graph \<Rightarrow> nat \<Rightarrow> nat \<Rightarrow> real option" where
  "weight G u v = map_of (dict_get (g_adj G) u) v"

definition dist_rows :: "scored \<Rightarrow> scored \<Rightarrow> real" where
  "dist_rows row1 row2 =
     sqrt ((latitude row1 - latitude row2)\<^sup>2 + (longitude row1 - longitude row2)\<^sup>2)"

text \<open>Lines 32 to 45: the nodes, then one \<^verbatim>\<open>add_edge\<close> for every ordered pair of distinct labels.\<close>

definition add_nodes :: "frame \<Rightarrow> graph \<Rightarrow> graph" where
  "add_nodes mp G = fold (\<lambda>(idx, row). add_node idx (latitude row, longitude row)) mp G"

definition add_edges_row :: "frame \<Rightarrow> nat \<times> scored \<Rightarrow> graph \<Rightarrow> graph" where
  "add_edges_row mp p1 G =
     fold (\<lambda>(idx2, row2) G'.
             if fst p1 \<noteq> idx2 then add_edge (fst p1) idx2 (dist_rows (snd p1) row2) G' else G')
          mp G"

definition distance_graph :: "frame \<Rightarrow> graph" where
  "distance_graph mp = fold (add_edges_row mp) mp (add_nodes mp empty_graph)"

section \<open>The tour: networkx's traveling\_salesman\_problem\<close>

text \<open>
  Line 48 calls \<^verbatim>\<open>nx.approximation.traveling_salesman_problem(G, cycle=True)\<close> with
  no method, so on an undirected graph networkx runs \<^verbatim>\<open>christofides\<close>: a minimum
  spanning tree (Kruskal), a minimum-weight matching of the tree's odd-degree nodes, an
  Eulerian circuit of the multigraph of tree and matching edges, and
  \<^verbatim>\<open>_shortcutting\<close>, which keeps the first visit of every node and then appends the
  first node again. The functions below follow the library's code, with dictionaries as
  association lists in insertion order, since the library's choices (first node, first
  edge) follow that order.

  \<^verbatim>\<open>G.edges\<close>: every edge once, from the endpoint that comes first in node order.
\<close>

fun edges_from :: "nat list \<Rightarrow> (nat \<times> (nat \<times> real) list) list \<Rightarrow> (nat \<times> nat \<times> real) list" where
  "edges_from seen [] = []"
| "edges_from seen ((n, nbrs) # rest) =
     map (\<lambda>(v, w). (n, v, w)) (filter (\<lambda>(v, w). v \<notin> set seen) nbrs) @ edges_from (n # seen) rest"

definition edges_of :: "graph \<Rightarrow> (nat \<times> nat \<times> real) list" where
  "edges_of G = edges_from [] (g_adj G)"

definition degree :: "graph \<Rightarrow> nat \<Rightarrow> nat" where
  "degree G n =
     (let nbrs = dict_get (g_adj G) n
      in length nbrs + (if n \<in> fst ` set nbrs then 1 else 0))"

text \<open>
  \<^verbatim>\<open>minimum_spanning_tree\<close>: the edges sorted by weight with Python's stable sort,
  taken in turn when their endpoints lie in different subtrees of the union-find
  structure (here: a map from node to the representative of its subtree); the tree
  is a new graph with all nodes of \<open>G\<close> and the chosen edges.
\<close>

fun kruskal :: "(nat \<Rightarrow> nat) \<Rightarrow> (nat \<times> nat \<times> real) list \<Rightarrow> (nat \<times> nat \<times> real) list" where
  "kruskal subtrees [] = []"
| "kruskal subtrees ((u, v, w) # es) =
     (if subtrees u \<noteq> subtrees v
      then (u, v, w) # kruskal (\<lambda>x. if subtrees x = subtrees v then subtrees u else subtrees x) es
      else kruskal subtrees es)"

definition minimum_spanning_tree :: "graph \<Rightarrow> graph" where
  "minimum_spanning_tree G =
     (let edges = kruskal id (sort_key (\<lambda>(u, v, w). w) (edges_of G));
          T = \<lparr>g_node = g_node G, g_adj = map (\<lambda>n. (n, [])) (nodes_of G)\<rparr>
      in fold (\<lambda>(u, v, w). add_edge u v w) edges T)"

definition remove_nodes_from :: "nat list \<Rightarrow> graph \<Rightarrow> graph" where
  "remove_nodes_from ns G =
     \<lparr>g_node = filter (\<lambda>(n, p). n \<notin> set ns) (g_node G),
      g_adj = map (\<lambda>(n, nbrs). (n, filter (\<lambda>(v, w). v \<notin> set ns) nbrs))
                (filter (\<lambda>(n, nbrs). n \<notin> set ns) (g_adj G))\<rparr>"

text \<open>
  \<^verbatim>\<open>min_weight_matching\<close> runs the blossom algorithm and returns a matching of
  maximum cardinality that has minimum weight among those. Its code is not followed
  here: the model lists the perfect matchings of the nodes over the edges of the graph
  and takes the first one of least weight. When several matchings have the least
  weight, or the matching has more than one edge, the library's choice and the order
  of its result (a Python set) are not determined by this model.
\<close>

function matchings :: "graph \<Rightarrow> nat list \<Rightarrow> (nat \<times> nat) list list" where
  "matchings L [] = [[]]"
| "matchings L (x # xs) =
     concat (map (\<lambda>y. map ((#) (x, y)) (matchings L (remove1 y xs)))
                 (filter (\<lambda>y. weight L x y \<noteq> None) xs))"
  by pat_completeness auto
termination
  by (relation "measure (\<lambda>(L, xs). length xs)") (auto simp: length_remove1 intro: Suc_pred)

definition matching_weight :: "graph \<Rightarrow> (nat \<times> nat) list \<Rightarrow> real" where
  "matching_weight L m = sum_list (map (\<lambda>(u, v). the (weight L u v)) m)"

definition min_weight_matching :: "graph \<Rightarrow> (nat \<times> nat) list" where
  "min_weight_matching L =
     (case matchings L (nodes_of L) of [] \<Rightarrow> [] | m # ms \<Rightarrow> arg_min_list (matching_weight L) (m # ms))"

text \<open>
  \<^verbatim>\<open>nx.MultiGraph\<close>: node to neighbour to the keys of the parallel edges.
  \<^verbatim>\<open>add_edge\<close> takes the first unused key from the number of parallel edges upwards;
  \<^verbatim>\<open>remove_edge\<close> deletes one key, from both directions, and the neighbour entry
  with it when no key is left. The degree counts a self-loop twice.
\<close>

type_synonym multigraph = "(nat \<times> (nat \<times> nat list) list) list"

definition m_ensure_node :: "nat \<Rightarrow> multigraph \<Rightarrow> multigraph" where
  "m_ensure_node n M = (if n \<in> fst ` set M then M else M @ [(n, [])])"

definition new_edge_key :: "nat list \<Rightarrow> nat" where
  "new_edge_key keydict =
     hd (filter (\<lambda>key. key \<notin> set keydict) [length keydict ..< Suc (2 * length keydict)])"

definition m_add_edge :: "nat \<Rightarrow> nat \<Rightarrow> multigraph \<Rightarrow> multigraph" where
  "m_add_edge u v M =
     (let M0 = m_ensure_node v (m_ensure_node u M);
          keydict = dict_get (dict_get M0 u) v;
          keydict' = keydict @ [new_edge_key keydict];
          M1 = dict_set u (dict_set v keydict' (dict_get M0 u)) M0
      in dict_set v (dict_set u keydict' (dict_get M1 v)) M1)"

definition dict_del :: "'k \<Rightarrow> ('k \<times> 'v) list \<Rightarrow> ('k \<times> 'v) list" where
  "dict_del k d = filter (\<lambda>p. fst p \<noteq> k) d"

definition m_remove_edge :: "nat \<Rightarrow> nat \<Rightarrow> nat \<Rightarrow> multigraph \<Rightarrow> multigraph" where
  "m_remove_edge u v key M =
     (let d = remove1 key (dict_get (dict_get M u) v);
          upd = (\<lambda>a b A. dict_set a (if d = [] then dict_del b (dict_get A a)
                                      else dict_set b d (dict_get A a)) A)
      in upd v u (upd u v M))"

definition m_degree :: "multigraph \<Rightarrow> nat \<Rightarrow> nat" where
  "m_degree M n =
     (let nbrs = dict_get M n
      in sum_list (map (\<lambda>(v, keys). length keys) nbrs) + length (dict_get nbrs n))"

definition m_edges_at :: "multigraph \<Rightarrow> nat \<Rightarrow> (nat \<times> nat) list" where
  "m_edges_at M n = concat (map (\<lambda>(v, keys). map (Pair v) keys) (dict_get M n))"

text \<open>
  \<^verbatim>\<open>eulerian_circuit\<close>: \<^verbatim>\<open>is_eulerian\<close> asks for even degrees and connectedness,
  and \<^verbatim>\<open>is_connected\<close> raises NetworkXPointlessConcept on the graph without nodes.
  The circuit itself is the loop of \<^verbatim>\<open>_multigraph_eulerian_circuit\<close>, started at the
  first node: a stack of vertices; a vertex without edges left is popped and the edge
  from the vertex popped before it is emitted; otherwise the first edge at the vertex is
  removed and followed. The loop is a partial function: \<open>None\<close> stands for a loop
  that does not return.
\<close>

fun plain_bfs :: "nat \<Rightarrow> multigraph \<Rightarrow> nat list \<Rightarrow> nat list" where
  "plain_bfs 0 M seen = seen"
| "plain_bfs (Suc k) M seen =
     plain_bfs k M (remdups (seen @ concat (map (\<lambda>n. map fst (dict_get M n)) seen)))"

definition is_connected :: "multigraph \<Rightarrow> error + bool" where
  "is_connected M =
     (case M of [] \<Rightarrow> Inl NetworkXPointlessConcept
      | (n, nbrs) # rest \<Rightarrow> Inr (length (plain_bfs (length M) M [n]) = length M))"

definition is_eulerian :: "multigraph \<Rightarrow> error + bool" where
  "is_eulerian M =
     (if list_all (\<lambda>(n, nbrs). even (m_degree M n)) M then is_connected M else Inr False)"

partial_function (option) euler_loop ::
  "multigraph \<Rightarrow> nat list \<Rightarrow> nat option \<Rightarrow> (nat \<times> nat) list \<Rightarrow> (nat \<times> nat) list option" where
  "euler_loop M vertex_stack last_vertex out =
     (case vertex_stack of
        [] \<Rightarrow> Some out
      | current_vertex # rest \<Rightarrow>
          if m_degree M current_vertex = 0
          then euler_loop M rest (Some current_vertex)
                 (case last_vertex of None \<Rightarrow> out | Some l \<Rightarrow> out @ [(l, current_vertex)])
          else (case hd (m_edges_at M current_vertex) of
                  (next_vertex, next_key) \<Rightarrow>
                    euler_loop (m_remove_edge current_vertex next_vertex next_key M)
                      (next_vertex # vertex_stack) last_vertex out))"

declare euler_loop.simps [code]

definition eulerian_circuit :: "multigraph \<Rightarrow> (error + (nat \<times> nat) list) option" where
  "eulerian_circuit M =
     (case is_eulerian M of
        Inl e \<Rightarrow> Some (Inl e)
      | Inr False \<Rightarrow> Some (Inl NetworkXError)
      | Inr True \<Rightarrow> map_option Inr (euler_loop M [fst (hd M)] None []))"

text \<open>\<^verbatim>\<open>_shortcutting\<close>; \<^verbatim>\<open>nodes[0]\<close> of an empty list raises IndexError.\<close>

fun shortcut_nodes :: "nat list \<Rightarrow> (nat \<times> nat) list \<Rightarrow> nat list" where
  "shortcut_nodes nodes [] = nodes"
| "shortcut_nodes nodes ((u, v) # circuit) =
     (if v \<in> set nodes then shortcut_nodes nodes circuit
      else shortcut_nodes ((if nodes = [] then [u] else nodes) @ [v]) circuit)"

definition shortcutting :: "(nat \<times> nat) list \<Rightarrow> error + nat list" where
  "shortcutting circuit =
     (case shortcut_nodes [] circuit of
        [] \<Rightarrow> Inl IndexError
      | n # ns \<Rightarrow> Inr ((n # ns) @ [n]))"

definition remove_selfloops :: "graph \<Rightarrow> graph" where
  "remove_selfloops G = G\<lparr>g_adj := map (\<lambda>(n, nbrs). (n, filter (\<lambda>(v, w). v \<noteq> n) nbrs)) (g_adj G)\<rparr>"

definition is_complete :: "graph \<Rightarrow> bool" where
  "is_complete G =
     list_all (\<lambda>(n, nbrs). int (length nbrs) = int (length (g_adj G)) - 1) (g_adj G)"

definition christofides :: "graph \<Rightarrow> (error + nat list) option" where
  "christofides G0 =
     (let G = remove_selfloops G0 in
      if \<not> is_complete G then Some (Inl NetworkXError)
      else
        let tree = minimum_spanning_tree G;
            L = remove_nodes_from (filter (\<lambda>v. even (degree tree v)) (nodes_of tree)) G;
            MG = fold (\<lambda>(u, v, w). m_add_edge u v) (edges_of tree) [];
            edges = min_weight_matching L;
            MG' = fold (\<lambda>(u, v). m_add_edge u v) edges MG
        in (case eulerian_circuit MG' of
              None \<Rightarrow> None
            | Some (Inl e) \<Rightarrow> Some (Inl e)
            | Some (Inr circuit) \<Rightarrow> Some (shortcutting circuit)))"

text \<open>
  \<^verbatim>\<open>traveling_salesman_problem\<close> first computes all shortest paths with Dijkstra's
  algorithm and builds the complete graph \<open>GG\<close> of the shortest-path distances; at the
  end it replaces every step of the tour by the shortest path between its ends. The
  model covers the graphs that line 48 passes: complete, with Euclidean distances as
  weights. There no route over a third node is strictly shorter than the edge itself, and
  the library's Dijkstra replaces a path it has found only by a strictly shorter one, so
  the distance of two nodes is the weight of their edge, the path is the edge, and the
  tour is returned as \<^verbatim>\<open>christofides\<close> gives it.
\<close>

definition complete_on :: "graph \<Rightarrow> nat list \<Rightarrow> graph" where
  "complete_on G nodes =
     fold (\<lambda>u GG. fold (\<lambda>v GG'. if u = v then GG' else add_edge u v (the (weight G u v)) GG') nodes GG)
          nodes empty_graph"

definition traveling_salesman_problem :: "graph \<Rightarrow> (error + nat list) option" where
  "traveling_salesman_problem G = christofides (complete_on G (nodes_of G))"

text \<open>
  \<^verbatim>\<open>melhores_pontos.loc[circuito]\<close>: the rows with the given labels, in the order of
  the labels, a label that occurs twice giving its row twice; KeyError for a label
  that is not in the frame.
\<close>

definition loc :: "frame \<Rightarrow> nat list \<Rightarrow> error + frame" where
  "loc df labels =
     (if set labels \<subseteq> fst ` set df then Inr (map (\<lambda>i. (i, the (map_of df i))) labels)
      else Inl KeyError)"

text \<open>
  encontrar\_melhor\_circuito in two steps: \<open>circuito_dos_pontos\<close> is lines 32 to 50,
  applied to the frame \<^verbatim>\<open>melhores_pontos\<close> that line 30 selected.
\<close>

definition circuito_dos_pontos :: "frame \<Rightarrow> (error + frame) option" where
  "circuito_dos_pontos melhores_pontos =
     (let G = distance_graph melhores_pontos
      in (case traveling_salesman_problem G of
            None \<Rightarrow> None
          | Some (Inl e) \<Rightarrow> Some (Inl e)
          | Some (Inr circuito) \<Rightarrow> Some (loc melhores_pontos circuito)))"

definition encontrar_melhor_circuito :: "frame \<Rightarrow> int \<Rightarrow> (error + frame) option" where
  "encontrar_melhor_circuito df num_pontos = circuito_dos_pontos (nlargest num_pontos df)"

text \<open>
  The statistics that \<^verbatim>\<open>main\<close> reports (lines 104 and 106): the means of the columns
  poluicao and transito over the rows of the frame that encontrar\_melhor\_circuito
  returned.
\<close>

definition mean :: "real list \<Rightarrow> real" where
  "mean xs = sum_list xs / real (length xs)"

definition media_poluicao :: "frame \<Rightarrow> real" where
  "media_poluicao df_circuito = mean (map (\<lambda>p. poluicao (snd p)) df_circuito)"

definition media_transito :: "frame \<Rightarrow> real" where
  "media_transito df_circuito = mean (map (\<lambda>p. transito (snd p)) df_circuito)"

text \<open>
  The length of a tour given as a sequence of rows: the sum of the distances between
  consecutive rows and of the closing edge from the last row back to the first.
\<close>

definition tour_length :: "frame \<Rightarrow> real" where
  "tour_length t =
     (case t of [] \<Rightarrow> 0
      | p # ps \<Rightarrow> sum_list (map (\<lambda>(a, b). dist_rows (snd a) (snd b)) (zip t (ps @ [p]))))"

text \<open>
  Modelled from the spec: the nearest-neighbour baseline, which the code does not
  contain. Section 4.4: "starting from an arbitrary (deterministic, e.g. first)
  candidate, repeatedly move to the nearest unvisited candidate until all are visited,
  then close the loop". The start is the first candidate; of several nearest
  candidates the first in candidate order is taken.
\<close>

function nearest_neighbor_walk :: "nat \<times> scored \<Rightarrow> frame \<Rightarrow> frame" where
  "nearest_neighbor_walk current [] = [current]"
| "nearest_neighbor_walk current (p # ps) =
     (let nearest = arg_min_list (\<lambda>q. dist_rows (snd current) (snd q)) (p # ps)
      in current # nearest_neighbor_walk nearest (remove1 nearest (p # ps)))"
  by pat_completeness auto
termination
proof (relation "measure (\<lambda>(current, unvisited). length unvisited)")
  show "wf (measure (\<lambda>(current, unvisited). length unvisited))" by simp
next
  fix current p :: "nat \<times> scored" and ps nearest
  assume "nearest = arg_min_list (\<lambda>q. dist_rows (snd current) (snd q)) (p # ps)"
  then have "nearest \<in> set (p # ps)"
    by (simp only: arg_min_list_in [of "p # ps"] list.distinct not_False_eq_True)
  then have "length (remove1 nearest (p # ps)) < length (p # ps)"
    by (auto simp: length_remove1 intro: diff_Suc_less length_pos_if_in_set)
  then show "((nearest, remove1 nearest (p # ps)), (current, p # ps))
               \<in> measure (\<lambda>(current, unvisited). length unvisited)"
    by simp
qed

definition nearest_neighbor_tour :: "frame \<Rightarrow> frame" where
  "nearest_neighbor_tour candidates =
     (case candidates of [] \<Rightarrow> [] | p # ps \<Rightarrow> nearest_neighbor_walk p ps)"

text \<open>
  Two notions used to state what the graph holds: the distance between the rows
  labelled \<open>u\<close> and \<open>v\<close> of a frame, and a graph whose weighted edges are exactly
  the pairs of a set \<open>S\<close>, each with that distance.
\<close>

definition row_dist :: "frame \<Rightarrow> nat \<Rightarrow> nat \<Rightarrow> real" where
  "row_dist mp u v = dist_rows (the (map_of mp u)) (the (map_of mp v))"

definition has_edges :: "frame \<Rightarrow> (nat \<times> nat) set \<Rightarrow> graph \<Rightarrow> bool" where
  "has_edges mp S G \<longleftrightarrow>
     (\<forall>u v. weight G u v = (if (u, v) \<in> S then Some (row_dist mp u v) else None))"

text \<open>Small inputs used as concrete cases below.\<close>

definition exemplo_dois :: "row list" where
  "exemplo_dois =
     [\<lparr>latitude = 0, longitude = 0, poluicao = 1, transito = 2\<rparr>,
      \<lparr>latitude = 0, longitude = 1, poluicao = 3, transito = 2\<rparr>]"

definition exemplo_tres :: frame where
  "exemplo_tres =
     [(2, \<lparr>latitude = 0, longitude = 0, poluicao = 1, transito = 1,
           poluicao_norm = 1, transito_norm = 1, score = 1\<rparr>),
      (0, \<lparr>latitude = 3, longitude = 4, poluicao = 1, transito = 0,
           poluicao_norm = 1, transito_norm = 0, score = 1 / 2\<rparr>),
      (1, \<lparr>latitude = 0, longitude = 4, poluicao = 0, transito = 0,
           poluicao_norm = 0, transito_norm = 0, score = 0\<rparr>)]"

section \<open>Properties of the rounding\<close>

lemma rne_int: "rne (of_int n) = n"
  by (simp add: rne_def)

lemma rne_bounds: "\<lfloor>x\<rfloor> \<le> rne x" "rne x \<le> \<lfloor>x\<rfloor> + 1"
  by (simp_all add: rne_def)

lemma rne_mono: assumes "x \<le> y" shows "rne x \<le> rne y"
proof (cases "\<lfloor>x\<rfloor> = \<lfloor>y\<rfloor>")
  case True
  then have "frac x \<le> frac y" using assms by (simp add: frac_def)
  then show ?thesis using True by (auto simp: rne_def)
next
  case False
  then have "\<lfloor>x\<rfloor> < \<lfloor>y\<rfloor>" using assms floor_mono [of x y] by linarith
  then show ?thesis using rne_bounds [of x] rne_bounds [of y] by linarith
qed

lemma rne_minus: "rne (- x) = - rne x"
proof (cases "x \<in> \<int>")
  case True
  then obtain n where "x = of_int n" by (auto elim: Ints_cases)
  then show ?thesis
    by (metis of_int_minus rne_int)
next
  case False
  then have ne: "of_int \<lfloor>x\<rfloor> \<noteq> x" by (metis Ints_of_int)
  have f: "\<lfloor>- x\<rfloor> = - \<lfloor>x\<rfloor> - 1"
    using ne by (simp add: floor_minus ceiling_altdef)
  have fr: "frac (- x) = 1 - frac x"
    using False by (simp add: frac_neg)
  show ?thesis
    unfolding rne_def f fr by auto
qed

lemma two_powi_pos: "0 < (2::real) powi k"
  by simp

lemma two_powi_add: "(2::real) powi (m + n) = 2 powi m * 2 powi n"
  by (simp add: power_int_add)

lemma exponent_iff:
  assumes "x \<noteq> 0"
  shows "exponent x = k \<longleftrightarrow> 2 powi k \<le> \<bar>x\<bar> \<and> \<bar>x\<bar> < 2 powi (k + 1)"
proof -
  have p: "0 < \<bar>x\<bar>" using assms by simp
  have a: "(2::real) powr real_of_int k = 2 powi k"
    by (simp add: powr_real_of_int')
  have b: "(2::real) powr real_of_int (k + 1) = 2 powi (k + 1)"
    by (rule powr_real_of_int') simp_all
  show ?thesis
    unfolding exponent_def floor_log_eq_powr_iff [OF p, of 2 k, simplified] a b [simplified]
    using b by simp
qed

lemma exponent_bounds:
  assumes "x \<noteq> 0"
  shows "2 powi exponent x \<le> \<bar>x\<bar>" "\<bar>x\<bar> < 2 powi (exponent x + 1)"
  using exponent_iff [OF assms, of "exponent x"] by simp_all

lemma exponent_minus: "exponent (- x) = exponent x"
  by (simp add: exponent_def)

lemma float64_minus: "float64 (- x) = - float64 x"
  by (simp add: float64_def exponent_minus rne_minus)

lemma float64_zero: "float64 0 = 0"
  by (simp add: float64_def)

lemma scaled_bounds:
  assumes "0 < x"
  shows "2 powi 52 \<le> x * 2 powi (52 - exponent x)" "x * 2 powi (52 - exponent x) < 2 powi 53"
proof -
  let ?e = "exponent x"
  have x: "x \<noteq> 0" "\<bar>x\<bar> = x" using assms by simp_all
  have p: "0 < (2::real) powi (52 - ?e)" by simp
  have "2 powi ?e * 2 powi (52 - ?e) \<le> x * 2 powi (52 - ?e)"
    using exponent_bounds(1) [OF x(1)] p x(2) by simp
  moreover have "(2::real) powi ?e * 2 powi (52 - ?e) = 2 powi 52"
    using two_powi_add [of ?e "52 - ?e"] by simp
  ultimately show "2 powi 52 \<le> x * 2 powi (52 - exponent x)" by simp
  have "x * 2 powi (52 - ?e) < 2 powi (?e + 1) * 2 powi (52 - ?e)"
    using exponent_bounds(2) [OF x(1)] p x(2) by simp
  moreover have "(2::real) powi (?e + 1) * 2 powi (52 - ?e) = 2 powi 53"
    using two_powi_add [of "?e + 1" "52 - ?e"] by simp
  ultimately show "x * 2 powi (52 - exponent x) < 2 powi 53" by simp
qed

lemma rne_scaled_bounds:
  assumes "0 < x"
  shows "2 ^ 52 \<le> rne (x * 2 powi (52 - exponent x))" "rne (x * 2 powi (52 - exponent x)) \<le> 2 ^ 53"
proof -
  have "rne (of_int (2 ^ 52)) \<le> rne (x * 2 powi (52 - exponent x))"
    using scaled_bounds(1) [OF assms] by (intro rne_mono) simp
  then show "2 ^ 52 \<le> rne (x * 2 powi (52 - exponent x))"
    by (simp only: rne_int)
  have "rne (x * 2 powi (52 - exponent x)) \<le> rne (of_int (2 ^ 53))"
    using scaled_bounds(2) [OF assms] by (intro rne_mono) simp
  then show "rne (x * 2 powi (52 - exponent x)) \<le> 2 ^ 53"
    by (simp only: rne_int)
qed

lemma float64_pos_bounds:
  assumes "0 < x"
  shows "2 powi exponent x \<le> float64 x" "float64 x \<le> 2 powi (exponent x + 1)"
proof -
  let ?e = "exponent x"
  let ?n = "rne (x * 2 powi (52 - ?e))"
  let ?P = "(2::real) powi (?e - 52)"
  have fx: "float64 x = of_int ?n * ?P"
    using assms by (simp add: float64_def)
  have n1: "(2::real) powi 52 \<le> of_int ?n"
    using rne_scaled_bounds(1) [OF assms] of_int_le_iff [of "2 ^ 52" ?n, where ?'a = real]
    by simp
  have n2: "of_int ?n \<le> (2::real) powi 53"
    using rne_scaled_bounds(2) [OF assms] of_int_le_iff [of ?n "2 ^ 53", where ?'a = real]
    by simp
  have "(2::real) powi ?e = 2 powi 52 * ?P"
    using two_powi_add [of 52 "?e - 52"] by simp
  also have "\<dots> \<le> of_int ?n * ?P"
    using n1 by (intro mult_right_mono) simp_all
  finally show "2 powi exponent x \<le> float64 x"
    unfolding fx .
  have "of_int ?n * ?P \<le> 2 powi 53 * ?P"
    using n2 by (intro mult_right_mono) simp_all
  also have "\<dots> = 2 powi (?e + 1)"
    using two_powi_add [of 53 "?e - 52"] by (simp add: add.commute)
  finally show "float64 x \<le> 2 powi (exponent x + 1)"
    unfolding fx .
qed

lemma float64_pos: "0 < x \<Longrightarrow> 0 < float64 x"
  using float64_pos_bounds(1) [of x] two_powi_pos [of "exponent x"] by linarith

lemma exponent_mono:
  assumes "0 < x" "x \<le> y"
  shows "exponent x \<le> exponent y"
  using assms unfolding exponent_def by (intro floor_mono) simp

lemma float64_mono_pos:
  assumes "0 < x" "x \<le> y"
  shows "float64 x \<le> float64 y"
proof (cases "exponent x = exponent y")
  case True
  have "rne (x * 2 powi (52 - exponent y)) \<le> rne (y * 2 powi (52 - exponent y))"
    using assms by (intro rne_mono) simp
  then show ?thesis
    using assms True by (simp add: float64_def)
next
  case False
  then have "exponent x + 1 \<le> exponent y"
    using exponent_mono [OF assms] by simp
  then have "(2::real) powi (exponent x + 1) \<le> 2 powi exponent y"
    by (intro power_int_increasing) simp_all
  moreover have "0 < y" using assms by simp
  ultimately show ?thesis
    using float64_pos_bounds(2) [OF assms(1)] float64_pos_bounds(1) [of y] by linarith
qed

lemma float64_mono:
  assumes "x \<le> y"
  shows "float64 x \<le> float64 y"
proof -
  consider "0 < x" | "x \<le> 0" "0 \<le> y" | "y < 0" by linarith
  then show ?thesis
  proof cases
    case 1
    then show ?thesis using assms by (rule float64_mono_pos)
  next
    case 2
    have "float64 x \<le> 0"
    proof (cases "x = 0")
      case True then show ?thesis by (simp add: float64_zero)
    next
      case False
      then have "0 < float64 (- x)" using 2 by (intro float64_pos) simp
      then show ?thesis by (simp add: float64_minus)
    qed
    moreover have "0 \<le> float64 y"
    proof (cases "y = 0")
      case True then show ?thesis by (simp add: float64_zero)
    next
      case False
      then have "0 < float64 y" using 2 by (intro float64_pos) simp
      then show ?thesis by simp
    qed
    ultimately show ?thesis by simp
  next
    case 3
    then have "float64 (- y) \<le> float64 (- x)"
      using assms by (intro float64_mono_pos) simp_all
    then show ?thesis by (simp add: float64_minus)
  qed
qed


lemma float64_eq:
  assumes "2 powi k \<le> \<bar>x\<bar>" "\<bar>x\<bar> < 2 powi (k + 1)"
  shows "float64 x = of_int (rne (x * 2 powi (52 - k))) * 2 powi (k - 52)"
proof -
  have "0 < \<bar>x\<bar>" using assms(1) two_powi_pos [of k] by linarith
  then have x: "x \<noteq> 0" by simp
  have "exponent x = k" using assms by (simp add: exponent_iff [OF x])
  then show ?thesis using x by (simp add: float64_def)
qed

lemma float64_of_scaled_int:
  assumes "2 ^ 52 \<le> \<bar>n\<bar>" "\<bar>n\<bar> \<le> 2 ^ 53"
  shows "float64 (of_int n * 2 powi e) = of_int n * 2 powi e"
proof -
  have sym: "float64 (of_int m * 2 powi e) = of_int m * 2 powi e"
    if m: "2 ^ 52 \<le> m" "m \<le> 2 ^ 53" for m :: int
  proof (cases "m = 2 ^ 53")
    case True
    have v: "real_of_int m * 2 powi e = 2 powi (e + 53)"
      using two_powi_add [of e 53] by (simp add: True)
    have "float64 (2 powi (e + 53)) =
            of_int (rne (2 powi (e + 53) * 2 powi (52 - (e + 53)))) * 2 powi (e + 53 - 52)"
      by (rule float64_eq) (simp_all add: power_int_add)
    moreover have "(2::real) powi (e + 53) * 2 powi (52 - (e + 53)) = of_int (2 ^ 52)"
      using two_powi_add [of "e + 53" "52 - (e + 53)"] by simp
    moreover have "real_of_int (2 ^ 52) * 2 powi (e + 53 - 52) = 2 powi (e + 53)"
      using two_powi_add [of 52 "e + 53 - 52"] by (simp add: add.commute)
    ultimately show ?thesis
      unfolding v by (simp only: rne_int)
  next
    case False
    then have lt: "m < 2 ^ 53" using m by simp
    let ?x = "real_of_int m * 2 powi e"
    have r1: "(2::real) powi 52 \<le> of_int m"
      using m(1) of_int_le_iff [of "2 ^ 52" m, where ?'a = real] by simp
    have r2: "real_of_int m < 2 powi 53"
      using lt of_int_less_iff [of m "2 ^ 53", where ?'a = real] by simp
    have pos: "\<bar>?x\<bar> = ?x" using r1 by (simp add: abs_mult)
    have "(2::real) powi (e + 52) = 2 powi 52 * 2 powi e"
      using two_powi_add [of 52 e] by (simp add: add.commute)
    also have "\<dots> \<le> ?x" using r1 by (intro mult_right_mono) simp_all
    finally have b1: "2 powi (e + 52) \<le> \<bar>?x\<bar>" unfolding pos .
    have "?x < 2 powi 53 * 2 powi e" using r2 by (intro mult_strict_right_mono) simp_all
    also have "\<dots> = 2 powi (e + 52 + 1)"
      using two_powi_add [of 53 e] by (simp add: add.commute)
    finally have b2: "\<bar>?x\<bar> < 2 powi (e + 52 + 1)" unfolding pos .
    have c: "52 - (e + 52) = - e" "e + 52 - 52 = e" by simp_all
    have "(2::real) powi e * 2 powi (- e) = 1"
      using two_powi_add [of e "- e"] by simp
    then have s: "?x * 2 powi (- e) = of_int m"
      by (simp add: mult.assoc)
    have "float64 ?x = of_int (rne (?x * 2 powi (52 - (e + 52)))) * 2 powi (e + 52 - 52)"
      by (rule float64_eq [OF b1 b2])
    then show ?thesis
      unfolding c s by (simp only: rne_int)
  qed
  show ?thesis
  proof (cases "0 \<le> n")
    case True
    then show ?thesis using assms by (intro sym) simp_all
  next
    case False
    then have "float64 (of_int (- n) * 2 powi e) = of_int (- n) * 2 powi e"
      using assms by (intro sym) simp_all
    then show ?thesis
      using float64_minus [of "of_int n * 2 powi e"] by simp
  qed
qed

lemma float64_idem: "float64 (float64 x) = float64 x"
proof (cases "x = 0")
  case True
  then show ?thesis by (simp add: float64_zero)
next
  case False
  have pos: "float64 (float64 y) = float64 y" if "0 < y" for y
  proof -
    have "float64 y = of_int (rne (y * 2 powi (52 - exponent y))) * 2 powi (exponent y - 52)"
      using that by (simp add: float64_def)
    moreover have "float64 (of_int (rne (y * 2 powi (52 - exponent y))) * 2 powi (exponent y - 52))
        = of_int (rne (y * 2 powi (52 - exponent y))) * 2 powi (exponent y - 52)"
      using rne_scaled_bounds [OF that] by (intro float64_of_scaled_int) simp_all
    ultimately show ?thesis by simp
  qed
  show ?thesis
  proof (cases "0 < x")
    case True
    then show ?thesis by (rule pos)
  next
    case False
    then have "float64 (float64 (- x)) = float64 (- x)"
      using \<open>x \<noteq> 0\<close> by (intro pos) simp
    then show ?thesis by (simp add: float64_minus)
  qed
qed

lemma float64_one: "float64 1 = 1"
  using float64_of_scaled_int [of "2 ^ 52" "- 52"] by simp

lemma float64_exact:
  assumes "x = of_int n * 2 powi e" "2 ^ 52 \<le> \<bar>n\<bar>" "\<bar>n\<bar> \<le> 2 ^ 53"
  shows "float64 x = x"
  unfolding assms(1) using assms(2,3) by (rule float64_of_scaled_int)

section \<open>Properties of the scoring step\<close>

lemma handle_zeros_pos: "0 < handle_zeros_in_scale s"
proof -
  have "(0::real) < 10 * eps64" by (simp add: eps64_def)
  then show ?thesis by (auto simp: handle_zeros_in_scale_def)
qed

lemma scale_of_Some: "\<exists>s. scale_of xs = Some s \<and> 0 < s"
proof -
  let ?h = "handle_zeros_in_scale (data_range xs)"
  have h: "0 < ?h" by (rule handle_zeros_pos)
  then have "0 < float64 ((1 - 0) / ?h)" by (intro float64_pos) simp
  then show ?thesis using h by (simp add: scale_of_def np_divide_def)
qed



lemma transform_mono:
  assumes "0 \<le> s" "x \<le> y"
  shows "transform xs s x \<le> transform xs s y"
proof -
  have "x * s \<le> y * s" using assms by (rule mult_right_mono [rotated])
  then have "float64 (x * s) \<le> float64 (y * s)" by (rule float64_mono)
  then show ?thesis unfolding transform_def by (intro float64_mono) simp
qed

lemma transform_min: "transform xs s (data_min xs) = 0"
proof -
  let ?a = "float64 (data_min xs * s)"
  have "float64 (0 - ?a) = - ?a"
    by (simp add: float64_minus float64_idem)
  then show ?thesis
    by (simp add: transform_def min_of_def float64_zero)
qed


lemma transform_const:
  assumes "\<forall>x\<in>set xs. x = c" "xs \<noteq> []"
  shows "transform xs s c = 0"
proof -
  from assms have "set xs = {c}" by (cases xs) auto
  then have "data_min xs = c" by (simp add: data_min_def)
  then show ?thesis using transform_min [of xs s] by simp
qed

lemma score_mono:
  assumes "a \<le> b" "c \<le> d"
  shows "float64 (float64 (a + c) / 2) \<le> float64 (float64 (b + d) / 2)"
proof -
  have "float64 (a + c) \<le> float64 (b + d)" using assms by (intro float64_mono) simp
  then show ?thesis by (intro float64_mono) simp
qed

lemma add_scores_simps:
  "poluicao (add_scores rs sp st r) = poluicao r"
  "transito (add_scores rs sp st r) = transito r"
  "latitude (add_scores rs sp st r) = latitude r"
  "longitude (add_scores rs sp st r) = longitude r"
  "poluicao_norm (add_scores rs sp st r) = transform (map poluicao rs) sp (poluicao r)"
  "transito_norm (add_scores rs sp st r) = transform (map transito rs) st (transito r)"
  "score (add_scores rs sp st r) =
     float64 (float64 (transform (map poluicao rs) sp (poluicao r)
                       + transform (map transito rs) st (transito r)) / 2)"
  by (simp_all add: add_scores_def Let_def)

text \<open>What a successful load returns, row by row.\<close>

lemma carregar_rows:
  assumes "rs \<noteq> []"
  shows "\<exists>sp st. 0 < sp \<and> 0 < st \<and>
           carregar_e_processar_dados rs
             = Inr (zip [0..<length rs] (map (add_scores rs sp st) rs))"
proof -
  obtain sp where sp: "scale_of (map poluicao rs) = Some sp" "0 < sp"
    using scale_of_Some by blast
  obtain st where st: "scale_of (map transito rs) = Some st" "0 < st"
    using scale_of_Some by blast
  show ?thesis
    using assms sp st by (auto simp: carregar_e_processar_dados_def)
qed

lemma carregar_cases:
  assumes "carregar_e_processar_dados rs = Inr df"
  obtains sp st where "0 < sp" "0 < st" "rs \<noteq> []"
    "df = zip [0..<length rs] (map (add_scores rs sp st) rs)"
proof -
  have ne: "rs \<noteq> []" using assms by (auto simp: carregar_e_processar_dados_def)
  from carregar_rows [OF ne] obtain sp st where
    "0 < sp" "0 < st" "carregar_e_processar_dados rs
             = Inr (zip [0..<length rs] (map (add_scores rs sp st) rs))"
    by blast
  with assms ne that show thesis by simp
qed

lemma frame_nth:
  "i < length rs \<Longrightarrow>
   zip [0..<length rs] (map (add_scores rs sp st) rs) ! i = (i, add_scores rs sp st (rs ! i))"
  by simp

lemma set_frame:
  "(i, s) \<in> set (zip [0..<length rs] (map (add_scores rs sp st) rs))
     \<longleftrightarrow> i < length rs \<and> s = add_scores rs sp st (rs ! i)"
proof
  assume "(i, s) \<in> set (zip [0..<length rs] (map (add_scores rs sp st) rs))"
  then show "i < length rs \<and> s = add_scores rs sp st (rs ! i)"
    by (auto simp: set_zip)
next
  assume h: "i < length rs \<and> s = add_scores rs sp st (rs ! i)"
  then have "zip [0..<length rs] (map (add_scores rs sp st) rs) ! i = (i, s)" by simp
  moreover have "i < length (zip [0..<length rs] (map (add_scores rs sp st) rs))"
    using h by simp
  ultimately show "(i, s) \<in> set (zip [0..<length rs] (map (add_scores rs sp st) rs))"
    by (metis nth_mem)
qed

lemma float64_two: "float64 2 = 2"
  by (rule float64_exact [of _ "2 ^ 52" "- 51"]) simp_all

lemma not_small_1: "\<not> (1::real) < 10 * eps64" and not_small_5: "\<not> (5::real) < 10 * eps64"
  and small_0: "(0::real) < 10 * eps64"
  by (simp_all add: eps64_def)

lemma scale_of_unit:
  assumes "data_max xs - data_min xs = 1"
  shows "scale_of xs = Some 1"
  using assms not_small_1
  by (simp add: scale_of_def data_range_def np_divide_def handle_zeros_in_scale_def float64_one)


lemma transform_unit_0: "data_min xs = 0 \<Longrightarrow> transform xs 1 0 = 0"
  and transform_unit_1: "data_min xs = 0 \<Longrightarrow> transform xs 1 1 = 1"
  by (simp_all add: transform_def min_of_def float64_zero float64_one)

lemma float64_fifth: "float64 (1 / 5) = 7205759403792794 / 2 ^ 55"
proof -
  have "float64 (1 / 5) = of_int (rne ((1 / 5) * 2 powi (52 - (- 3)))) * 2 powi (- 3 - 52)"
    by (rule float64_eq) simp_all
  moreover have "rne ((1 / 5) * 2 powi (52 - (- 3))) = 7205759403792794"
    by (simp add: rne_def frac_def)
  ultimately show ?thesis by simp
qed

lemma float64_six_fifths:
  "float64 (6 * (7205759403792794 / 2 ^ 55)) = 5404319552844596 / 2 ^ 52"
proof -
  have "float64 (6 * (7205759403792794 / 2 ^ 55))
     = of_int (rne ((6 * (7205759403792794 / 2 ^ 55)) * 2 powi (52 - 0))) * 2 powi (0 - 52)"
    by (rule float64_eq) simp_all
  moreover have "rne ((6 * (7205759403792794 / 2 ^ 55)) * 2 powi (52 - 0)) = 5404319552844596"
    by (simp add: rne_def frac_def)
  ultimately show ?thesis by simp
qed

lemma float64_above_one:
  "float64 (5404319552844596 / 2 ^ 52 + - (7205759403792794 / 2 ^ 55)) = 1 + 1 / 2 ^ 52"
proof -
  let ?x = "(5404319552844596 / 2 ^ 52 + - (7205759403792794 / 2 ^ 55)) :: real"
  have "float64 ?x = of_int (rne (?x * 2 powi (52 - 0))) * 2 powi (0 - 52)"
    by (rule float64_eq) simp_all
  moreover have "rne (?x * 2 powi (52 - 0)) = 4503599627370497"
    by (simp add: rne_def frac_def)
  ultimately show ?thesis by simp
qed

lemma float64_next_after_one: "float64 (1 + 1 / 2 ^ 52) = 1 + 1 / 2 ^ 52"
  by (rule float64_exact [of _ "2 ^ 52 + 1" "- 52"]) simp_all

lemma float64_twice_next: "float64 (1 + 1 / 2 ^ 52 + (1 + 1 / 2 ^ 52)) = 2 * (1 + 1 / 2 ^ 52)"
  by (rule trans [OF float64_exact [of _ "2 ^ 52 + 1" "- 51"]]) simp_all

text \<open>
  C3 does not hold of the code. The comment of line 16 promises the scale 0-1, and in
  exact arithmetic \<open>x * scale_ + min_\<close> would stay in it, but the scaler rounds after
  each operation. For a column with the values 1 and 6 the scale is 1/5 rounded, six
  times the scale rounds up, and the normalised value of 6 is \<open>1 + 2^-52\<close>, the
  binary64 number after 1 (printed 1.0000000000000002). With both columns so, the score
  of the row is above 1 as well.
\<close>

theorem normalised_value_above_one:
  "carregar_e_processar_dados
     [\<lparr>latitude = 0, longitude = 0, poluicao = 1, transito = 1\<rparr>,
      \<lparr>latitude = 0, longitude = 1, poluicao = 6, transito = 6\<rparr>] =
   Inr [(0, \<lparr>latitude = 0, longitude = 0, poluicao = 1, transito = 1,
              poluicao_norm = 0, transito_norm = 0, score = 0\<rparr>),
        (1, \<lparr>latitude = 0, longitude = 1, poluicao = 6, transito = 6,
              poluicao_norm = 1 + 1 / 2 ^ 52, transito_norm = 1 + 1 / 2 ^ 52,
              score = 1 + 1 / 2 ^ 52\<rparr>)]"
proof -
  let ?rs = "[\<lparr>latitude = 0, longitude = 0, poluicao = 1, transito = 1\<rparr>,
      \<lparr>latitude = 0, longitude = 1, poluicao = 6, transito = (6::real)\<rparr>]"
  define s :: real where "s = float64 (1 / 5)"
  have sv: "s = 7205759403792794 / 2 ^ 55"
    unfolding s_def by (rule float64_fifth)
  have fs: "float64 s = s"
    unfolding s_def by (rule float64_idem)
  have mp: "data_min (map poluicao ?rs) = 1" and mt: "data_min (map transito ?rs) = 1"
    and xp: "data_max (map poluicao ?rs) = 6" and xt: "data_max (map transito ?rs) = 6"
    by (simp_all add: data_min_def data_max_def)
  have f5: "float64 5 = 5"
    by (rule float64_exact [of _ "5 * 2 ^ 50" "- 50"]) simp_all
  have sc: "scale_of xs = Some s" if "data_max xs - data_min xs = 5" for xs
    using that not_small_5
    by (simp add: scale_of_def data_range_def np_divide_def handle_zeros_in_scale_def f5 s_def)
  have sp: "scale_of (map poluicao ?rs) = Some s"
    using mp xp by (intro sc) simp
  have st: "scale_of (map transito ?rs) = Some s"
    using mt xt by (intro sc) simp
  have mo: "min_of xs s = - s" if "data_min xs = 1" for xs
    using that by (simp add: min_of_def fs float64_minus)
  have t1: "transform xs s 1 = 0" if "data_min xs = 1" for xs
    using transform_min [of xs s] that by simp
  have r6: "float64 (6 * s) = 5404319552844596 / 2 ^ 52"
    unfolding sv by (rule float64_six_fifths)
  have r1: "float64 (5404319552844596 / 2 ^ 52 + - s) = 1 + 1 / 2 ^ 52"
    unfolding sv by (rule float64_above_one)
  have t6: "transform xs s 6 = 1 + 1 / 2 ^ 52" if "data_min xs = 1" for xs
    unfolding transform_def mo [OF that] r6 r1 ..
  have a0: "add_scores ?rs s s \<lparr>latitude = 0, longitude = 0, poluicao = 1, transito = 1\<rparr>
      = \<lparr>latitude = 0, longitude = 0, poluicao = 1, transito = 1,
              poluicao_norm = 0, transito_norm = 0, score = 0\<rparr>"
    unfolding add_scores_def Let_def row.simps t1 [OF mp] t1 [OF mt]
    by (simp add: float64_zero)
  have sc1: "float64 (float64 (1 + 1 / 2 ^ 52 + (1 + 1 / 2 ^ 52)) / 2) = 1 + 1 / 2 ^ 52"
    unfolding float64_twice_next using float64_next_after_one by simp
  have a1: "add_scores ?rs s s \<lparr>latitude = 0, longitude = 1, poluicao = 6, transito = 6\<rparr>
      = \<lparr>latitude = 0, longitude = 1, poluicao = 6, transito = 6,
              poluicao_norm = 1 + 1 / 2 ^ 52, transito_norm = 1 + 1 / 2 ^ 52,
              score = 1 + 1 / 2 ^ 52\<rparr>"
    unfolding add_scores_def Let_def row.simps t6 [OF mp] t6 [OF mt] sc1 ..
  have "carregar_e_processar_dados ?rs =
      Inr (zip [0..<length ?rs] (map (add_scores ?rs s s) ?rs))"
    unfolding carregar_e_processar_dados_def sp st by simp
  also have "\<dots> = Inr [(0, \<lparr>latitude = 0, longitude = 0, poluicao = 1, transito = 1,
              poluicao_norm = 0, transito_norm = 0, score = 0\<rparr>),
        (1, \<lparr>latitude = 0, longitude = 1, poluicao = 6, transito = 6,
              poluicao_norm = 1 + 1 / 2 ^ 52, transito_norm = 1 + 1 / 2 ^ 52,
              score = 1 + 1 / 2 ^ 52\<rparr>)]"
    unfolding list.map a0 a1 by (simp add: upt_conv_Cons)
  finally show ?thesis .
qed


text \<open>
  C4. Scoring a dataset with at least one row succeeds and keeps the rows, their labels
  and their raw values; when a metric column is constant, every row gets the
  normalised value 0 for that metric. (The quotient of the scale is never taken by
  zero: the load does not end in \<open>NonFinite\<close>.)
\<close>

theorem constant_column_is_zero:
  assumes "rs \<noteq> []"
  shows "\<exists>df. carregar_e_processar_dados rs = Inr df \<and> length df = length rs \<and>
           (\<forall>i < length rs.
              fst (df ! i) = i \<and>
              poluicao (snd (df ! i)) = poluicao (rs ! i) \<and>
              transito (snd (df ! i)) = transito (rs ! i)) \<and>
           ((\<forall>r \<in> set rs. poluicao r = c) \<longrightarrow>
              (\<forall>i < length rs. poluicao_norm (snd (df ! i)) = 0)) \<and>
           ((\<forall>r \<in> set rs. transito r = c) \<longrightarrow>
              (\<forall>i < length rs. transito_norm (snd (df ! i)) = 0))"
proof -
  from carregar_rows [OF assms] obtain sp st where
    c: "carregar_e_processar_dados rs = Inr (zip [0..<length rs] (map (add_scores rs sp st) rs))"
    by blast
  let ?df = "zip [0..<length rs] (map (add_scores rs sp st) rs)"
  have 1: "length ?df = length rs" by simp
  have 2: "\<forall>i < length rs. fst (?df ! i) = i \<and>
              poluicao (snd (?df ! i)) = poluicao (rs ! i) \<and>
              transito (snd (?df ! i)) = transito (rs ! i)"
    by (simp add: add_scores_simps)
  have 3: "\<forall>i < length rs. poluicao_norm (snd (?df ! i)) = 0"
    if h: "\<forall>r \<in> set rs. poluicao r = c"
  proof (intro allI impI)
    fix i assume i: "i < length rs"
    have "transform (map poluicao rs) sp c = 0"
      using h assms by (intro transform_const) auto
    moreover have "poluicao (rs ! i) = c" using h i by simp
    ultimately show "poluicao_norm (snd (?df ! i)) = 0"
      using i by (simp add: add_scores_simps)
  qed
  have 4: "\<forall>i < length rs. transito_norm (snd (?df ! i)) = 0"
    if h: "\<forall>r \<in> set rs. transito r = c"
  proof (intro allI impI)
    fix i assume i: "i < length rs"
    have "transform (map transito rs) st c = 0"
      using h assms by (intro transform_const) auto
    moreover have "transito (rs ! i) = c" using h i by simp
    ultimately show "transito_norm (snd (?df ! i)) = 0"
      using i by (simp add: add_scores_simps)
  qed
  from c 1 2 3 4 show ?thesis by blast
qed

theorem constant_column_is_zero_witness:
  "\<exists>df. carregar_e_processar_dados exemplo_dois = Inr df \<and> length df = 2 \<and>
     fst (df ! 0) = 0 \<and> fst (df ! 1) = 1 \<and>
     transito_norm (snd (df ! 0)) = 0 \<and> transito_norm (snd (df ! 1)) = 0"
proof -
  have ne: "exemplo_dois \<noteq> []" by (simp add: exemplo_dois_def)
  have c: "\<forall>r \<in> set exemplo_dois. transito r = 2" by (simp add: exemplo_dois_def)
  have l: "length exemplo_dois = 2" by (simp add: exemplo_dois_def)
  from constant_column_is_zero [OF ne, of 2] obtain df where
    df: "carregar_e_processar_dados exemplo_dois = Inr df" "length df = length exemplo_dois"
    and lab: "\<forall>i < length exemplo_dois. fst (df ! i) = i \<and>
              poluicao (snd (df ! i)) = poluicao (exemplo_dois ! i) \<and>
              transito (snd (df ! i)) = transito (exemplo_dois ! i)"
    and z: "(\<forall>r \<in> set exemplo_dois. transito r = 2) \<longrightarrow>
              (\<forall>i < length exemplo_dois. transito_norm (snd (df ! i)) = 0)"
    by blast
  have z': "\<forall>i < 2. transito_norm (snd (df ! i)) = 0"
    using z c unfolding l by blast
  have lab': "\<forall>i < 2. fst (df ! i) = i"
    using lab unfolding l by blast
  have "transito_norm (snd (df ! 0)) = 0" "transito_norm (snd (df ! 1)) = 0"
    "fst (df ! 0) = 0" "fst (df ! 1) = 1"
    using z' lab' by simp_all
  then show ?thesis using df l by auto
qed




text \<open>
  C10. Within one scored dataset the score is monotone in the raw metrics: a row whose
  pollution and traffic are both at most those of another row has a score at most that
  of the other row.
\<close>

theorem score_monotone:
  assumes "carregar_e_processar_dados rs = Inr df"
    and "(i, a) \<in> set df" and "(j, b) \<in> set df"
    and "poluicao a \<le> poluicao b" and "transito a \<le> transito b"
  shows "score a \<le> score b"
proof -
  from assms(1) obtain sp st where sp: "0 < sp" and st: "0 < st"
    and df: "df = zip [0..<length rs] (map (add_scores rs sp st) rs)"
    by (rule carregar_cases)
  from assms(2,3) have a: "a = add_scores rs sp st (rs ! i)"
    and b: "b = add_scores rs sp st (rs ! j)"
    by (simp_all add: df set_frame)
  from assms(4,5) have "poluicao (rs ! i) \<le> poluicao (rs ! j)"
    and "transito (rs ! i) \<le> transito (rs ! j)"
    by (simp_all add: a b add_scores_simps)
  then have "transform (map poluicao rs) sp (poluicao (rs ! i))
               \<le> transform (map poluicao rs) sp (poluicao (rs ! j))"
    and "transform (map transito rs) st (transito (rs ! i))
               \<le> transform (map transito rs) st (transito (rs ! j))"
    using sp st by (simp_all add: transform_mono)
  then show ?thesis
    unfolding a b add_scores_simps by (rule score_mono)
qed

theorem score_monotone_witness:
  "\<exists>df a b. carregar_e_processar_dados exemplo_dois = Inr df \<and>
     (0, a) \<in> set df \<and> (1, b) \<in> set df \<and>
     poluicao a = 1 \<and> poluicao b = 3 \<and> transito a = 2 \<and> transito b = 2 \<and>
     score a \<le> score b"
proof -
  have ne: "exemplo_dois \<noteq> []" by (simp add: exemplo_dois_def)
  from carregar_rows [OF ne] obtain sp st where
    c: "carregar_e_processar_dados exemplo_dois
          = Inr (zip [0..<length exemplo_dois] (map (add_scores exemplo_dois sp st) exemplo_dois))"
    by blast
  let ?df = "zip [0..<length exemplo_dois] (map (add_scores exemplo_dois sp st) exemplo_dois)"
  let ?a = "add_scores exemplo_dois sp st (exemplo_dois ! 0)"
  let ?b = "add_scores exemplo_dois sp st (exemplo_dois ! 1)"
  have m0: "(0, ?a) \<in> set ?df" and m1: "(1, ?b) \<in> set ?df"
    unfolding set_frame by (simp_all add: exemplo_dois_def)
  have v: "poluicao ?a = 1" "poluicao ?b = 3" "transito ?a = 2" "transito ?b = 2"
    by (simp_all add: add_scores_simps exemplo_dois_def)
  have "score ?a \<le> score ?b"
    using score_monotone [OF c m0 m1] v by simp
  with c m0 m1 v show ?thesis by blast
qed


section \<open>Properties of the selection step\<close>

text \<open>
  C1 does not hold of the code: the docstring of encontrar\_melhor\_circuito promises
  the points with the smallest scores, and the score is commented as "the lower the
  better", but line 30 calls nlargest. For the two-row dataset below, scored by
  carregar\_e\_processar\_dados, a request for one point selects row 1, whose score 1
  is the largest, and leaves out row 0, whose score 0 is the smallest.
\<close>

theorem selection_takes_largest:
  "carregar_e_processar_dados
     [\<lparr>latitude = 0, longitude = 0, poluicao = 0, transito = 0\<rparr>,
      \<lparr>latitude = 1, longitude = 1, poluicao = 1, transito = 1\<rparr>] =
   Inr [(0, \<lparr>latitude = 0, longitude = 0, poluicao = 0, transito = 0,
              poluicao_norm = 0, transito_norm = 0, score = 0\<rparr>),
        (1, \<lparr>latitude = 1, longitude = 1, poluicao = 1, transito = 1,
              poluicao_norm = 1, transito_norm = 1, score = 1\<rparr>)] \<and>
   nlargest 1
     [(0, \<lparr>latitude = 0, longitude = 0, poluicao = 0, transito = 0,
              poluicao_norm = 0, transito_norm = 0, score = 0\<rparr>),
      (1, \<lparr>latitude = 1, longitude = 1, poluicao = 1, transito = 1,
              poluicao_norm = 1, transito_norm = 1, score = 1\<rparr>)] =
   [(1, \<lparr>latitude = 1, longitude = 1, poluicao = 1, transito = 1,
          poluicao_norm = 1, transito_norm = 1, score = 1\<rparr>)]"
proof -
  let ?rs = "[\<lparr>latitude = 0, longitude = 0, poluicao = 0, transito = 0\<rparr>,
      \<lparr>latitude = 1, longitude = 1, poluicao = 1, transito = (1::real)\<rparr>]"
  have mp: "data_min (map poluicao ?rs) = 0" and mt: "data_min (map transito ?rs) = 0"
    and xp: "data_max (map poluicao ?rs) = 1" and xt: "data_max (map transito ?rs) = 1"
    by (simp_all add: data_min_def data_max_def)
  have sp: "scale_of (map poluicao ?rs) = Some 1"
    using mp xp by (intro scale_of_unit) simp
  have st: "scale_of (map transito ?rs) = Some 1"
    using mt xt by (intro scale_of_unit) simp
  have t: "transform (map poluicao ?rs) 1 0 = 0" "transform (map poluicao ?rs) 1 1 = 1"
    "transform (map transito ?rs) 1 0 = 0" "transform (map transito ?rs) 1 1 = 1"
    using mp mt by (simp_all only: transform_unit_0 transform_unit_1)
  have a0: "add_scores ?rs 1 1 \<lparr>latitude = 0, longitude = 0, poluicao = 0, transito = 0\<rparr>
      = \<lparr>latitude = 0, longitude = 0, poluicao = 0, transito = 0,
              poluicao_norm = 0, transito_norm = 0, score = 0\<rparr>"
    unfolding add_scores_def Let_def row.simps t by (simp add: float64_zero)
  have a1: "add_scores ?rs 1 1 \<lparr>latitude = 1, longitude = 1, poluicao = 1, transito = 1\<rparr>
      = \<lparr>latitude = 1, longitude = 1, poluicao = 1, transito = 1,
              poluicao_norm = 1, transito_norm = 1, score = 1\<rparr>"
    unfolding add_scores_def Let_def row.simps t by (simp add: float64_two float64_one)
  have "carregar_e_processar_dados ?rs =
      Inr (zip [0..<length ?rs] (map (add_scores ?rs 1 1) ?rs))"
    unfolding carregar_e_processar_dados_def sp st by simp
  also have "\<dots> = Inr [(0, \<lparr>latitude = 0, longitude = 0, poluicao = 0, transito = 0,
              poluicao_norm = 0, transito_norm = 0, score = 0\<rparr>),
        (1, \<lparr>latitude = 1, longitude = 1, poluicao = 1, transito = 1,
              poluicao_norm = 1, transito_norm = 1, score = 1\<rparr>)]"
    unfolding list.map a0 a1 by (simp add: upt_conv_Cons)
  finally show ?thesis
    by (simp add: nlargest_def)
qed







section \<open>Properties of the distance graph\<close>

lemma map_of_dict_set: "map_of (dict_set k v d) k' = (if k' = k then Some v else map_of d k')"
  by (induction d) auto

lemma keys_dict_set:
  "map fst (dict_set k v d) = (if k \<in> fst ` set d then map fst d else map fst d @ [k])"
  by (induction d) auto

lemma keyset_dict_set: "fst ` set (dict_set k v d) = insert k (fst ` set d)"
  by (induction d) auto

lemma keyset_ensure_node: "fst ` set (ensure_node n A) = insert n (fst ` set A)"
  by (auto simp: ensure_node_def)

lemma map_of_ensure_node:
  "map_of (ensure_node n A) k = (if n \<in> fst ` set A \<or> k \<noteq> n then map_of A k else Some [])"
proof (cases "n \<in> fst ` set A")
  case True
  then show ?thesis by (simp add: ensure_node_def)
next
  case False
  then have "map_of A n = None" by (simp add: map_of_eq_None_iff)
  then show ?thesis using False
    by (simp add: ensure_node_def map_add_def split: option.splits)
qed

lemma dict_get_ensure_node: "dict_get (ensure_node n A) k = dict_get A k"
proof (cases "n \<in> fst ` set A \<or> k \<noteq> n")
  case True
  then show ?thesis by (simp add: dict_get_def map_of_ensure_node)
next
  case False
  then have "map_of A k = None" by (simp add: map_of_eq_None_iff)
  then show ?thesis using False by (simp add: dict_get_def map_of_ensure_node)
qed

lemma keys_ensure_node:
  "map fst (ensure_node n A) = (if n \<in> fst ` set A then map fst A else map fst A @ [n])"
  by (simp add: ensure_node_def)

lemma dict_get_dict_set: "dict_get (dict_set k v d) k' = (if k' = k then v else dict_get d k')"
  by (simp add: dict_get_def map_of_dict_set)

lemma weight_add_edge:
  "weight (add_edge a b w G) u v =
     (if (u = a \<and> v = b) \<or> (u = b \<and> v = a) then Some w else weight G u v)"
  by (simp add: weight_def add_edge_def Let_def dict_get_dict_set dict_get_ensure_node
      map_of_dict_set)

lemma nodes_add_edge:
  "a \<in> set (nodes_of G) \<Longrightarrow> b \<in> set (nodes_of G) \<Longrightarrow> nodes_of (add_edge a b w G) = nodes_of G"
  by (simp add: nodes_of_def add_edge_def Let_def keys_dict_set keys_ensure_node
      keyset_dict_set keyset_ensure_node)

lemma weight_add_node: "weight (add_node n p G) u v = weight G u v"
  by (simp add: weight_def add_node_def dict_get_ensure_node)

lemma nodes_add_node:
  "nodes_of (add_node n p G) = (if n \<in> set (nodes_of G) then nodes_of G else nodes_of G @ [n])"
  by (simp add: nodes_of_def add_node_def keys_ensure_node)

lemma weight_add_nodes: "weight (add_nodes mp G) u v = weight G u v"
  unfolding add_nodes_def
  by (induction mp arbitrary: G) (auto simp: weight_add_node)

lemma nodes_add_nodes:
  "distinct (nodes_of G @ map fst mp) \<Longrightarrow> nodes_of (add_nodes mp G) = nodes_of G @ map fst mp"
  unfolding add_nodes_def
proof (induction mp arbitrary: G)
  case Nil
  then show ?case by simp
next
  case (Cons p mp)
  obtain i r where p: "p = (i, r)" by (cases p)
  from Cons.prems have d: "distinct (nodes_of (add_node i (latitude r, longitude r) G) @ map fst mp)"
    by (auto simp: nodes_add_node p)
  show ?case using Cons.IH [OF d] Cons.prems
    by (auto simp: p nodes_add_node)
qed

lemma weight_empty: "weight empty_graph u v = None"
  by (simp add: weight_def empty_graph_def dict_get_def)

lemma nodes_empty: "nodes_of empty_graph = []"
  by (simp add: nodes_of_def empty_graph_def)

lemma dist_sym: "dist_rows a b = dist_rows b a"
  by (simp add: dist_rows_def power2_commute)

lemma dist_nonneg: "0 \<le> dist_rows a b"
  by (simp add: dist_rows_def)

lemma has_edges_row:
  assumes "distinct (map fst mp)" "(i, r) \<in> set mp" "set l \<subseteq> set mp"
    "has_edges mp S G"
  shows "has_edges mp (S \<union> {(i, j) | j. j \<in> fst ` set l \<and> j \<noteq> i}
                         \<union> {(j, i) | j. j \<in> fst ` set l \<and> j \<noteq> i})
           (fold (\<lambda>(idx2, row2) G'.
             if i \<noteq> idx2 then add_edge i idx2 (dist_rows r row2) G' else G') l G)"
  using assms(3,4)
proof (induction l arbitrary: S G)
  case Nil
  then show ?case by simp
next
  case (Cons p l)
  obtain j rj where p: "p = (j, rj)" by (cases p)
  let ?G = "if i \<noteq> j then add_edge i j (dist_rows r rj) G else G"
  let ?S = "if i \<noteq> j then S \<union> {(i, j), (j, i)} else S"
  have jm: "(j, rj) \<in> set mp" using Cons.prems(1) p by auto
  have mi: "map_of mp i = Some r" and mj: "map_of mp j = Some rj"
    using assms(1,2) jm by simp_all
  have d: "row_dist mp i j = dist_rows r rj" "row_dist mp j i = dist_rows r rj"
    by (simp_all add: row_dist_def mi mj dist_sym)
  have "has_edges mp ?S ?G"
    using Cons.prems(2) d
    by (auto simp: has_edges_def weight_add_edge)
  moreover have "set l \<subseteq> set mp" using Cons.prems(1) by auto
  ultimately have "has_edges mp (?S \<union> {(i, j) | j. j \<in> fst ` set l \<and> j \<noteq> i}
                         \<union> {(j, i) | j. j \<in> fst ` set l \<and> j \<noteq> i})
           (fold (\<lambda>(idx2, row2) G'.
             if i \<noteq> idx2 then add_edge i idx2 (dist_rows r row2) G' else G') l ?G)"
    by (rule Cons.IH [rotated])
  moreover have "?S \<union> {(i, j) | j. j \<in> fst ` set l \<and> j \<noteq> i}
                         \<union> {(j, i) | j. j \<in> fst ` set l \<and> j \<noteq> i}
     = S \<union> {(i, j') | j'. j' \<in> fst ` set (p # l) \<and> j' \<noteq> i}
                         \<union> {(j', i) | j'. j' \<in> fst ` set (p # l) \<and> j' \<noteq> i}"
    by (auto simp: p)
  ultimately show ?case by (simp add: p)
qed

lemma nodes_row:
  assumes "fst ` set l \<subseteq> set (nodes_of G)" "i \<in> set (nodes_of G)"
  shows "nodes_of (fold (\<lambda>(idx2, row2) G'.
             if i \<noteq> idx2 then add_edge i idx2 (dist_rows r row2) G' else G') l G) = nodes_of G"
  using assms
proof (induction l arbitrary: G)
  case Nil
  then show ?case by simp
next
  case (Cons p l)
  obtain j rj where p: "p = (j, rj)" by (cases p)
  show ?case using Cons.prems
    by (simp add: p Cons.IH nodes_add_edge)
qed

lemma has_edges_rows:
  assumes "distinct (map fst mp)" "set l \<subseteq> set mp" "has_edges mp S G"
  shows "has_edges mp (S \<union> {(i, j) | i j. i \<in> fst ` set l \<and> j \<in> fst ` set mp \<and> j \<noteq> i}
                         \<union> {(j, i) | i j. i \<in> fst ` set l \<and> j \<in> fst ` set mp \<and> j \<noteq> i})
           (fold (add_edges_row mp) l G)"
  using assms(2,3)
proof (induction l arbitrary: S G)
  case Nil
  then show ?case by simp
next
  case (Cons p l)
  obtain i r where p: "p = (i, r)" by (cases p)
  let ?S = "S \<union> {(i, j) | j. j \<in> fst ` set mp \<and> j \<noteq> i}
              \<union> {(j, i) | j. j \<in> fst ` set mp \<and> j \<noteq> i}"
  have im: "(i, r) \<in> set mp" using Cons.prems(1) p by auto
  have "has_edges mp ?S (add_edges_row mp p G)"
    unfolding add_edges_row_def p fst_conv snd_conv
    by (rule has_edges_row [OF assms(1) im subset_refl Cons.prems(2)])
  moreover have "set l \<subseteq> set mp" using Cons.prems(1) by auto
  ultimately have "has_edges mp (?S \<union> {(i, j) | i j. i \<in> fst ` set l \<and> j \<in> fst ` set mp \<and> j \<noteq> i}
                         \<union> {(j, i) | i j. i \<in> fst ` set l \<and> j \<in> fst ` set mp \<and> j \<noteq> i})
           (fold (add_edges_row mp) l (add_edges_row mp p G))"
    by (rule Cons.IH [rotated])
  moreover have "?S \<union> {(i, j) | i j. i \<in> fst ` set l \<and> j \<in> fst ` set mp \<and> j \<noteq> i}
                         \<union> {(j, i) | i j. i \<in> fst ` set l \<and> j \<in> fst ` set mp \<and> j \<noteq> i}
      = S \<union> {(i', j) | i' j. i' \<in> fst ` set (p # l) \<and> j \<in> fst ` set mp \<and> j \<noteq> i'}
                         \<union> {(j, i') | i' j. i' \<in> fst ` set (p # l) \<and> j \<in> fst ` set mp \<and> j \<noteq> i'}"
    by (auto simp: p)
  ultimately show ?case by simp
qed

lemma nodes_rows:
  assumes "fst ` set mp \<subseteq> set (nodes_of G)" "set l \<subseteq> set mp"
  shows "nodes_of (fold (add_edges_row mp) l G) = nodes_of G"
  using assms
proof (induction l arbitrary: G)
  case Nil
  then show ?case by simp
next
  case (Cons p l)
  have pm: "fst p \<in> set (nodes_of G)" using Cons.prems by auto
  have n: "nodes_of (add_edges_row mp p G) = nodes_of G"
    unfolding add_edges_row_def using Cons.prems(1) pm by (rule nodes_row)
  show ?case using Cons.prems
    by (simp add: Cons.IH n)
qed

lemma distance_graph_nodes:
  assumes "distinct (map fst mp)"
  shows "nodes_of (distance_graph mp) = map fst mp"
proof -
  have n: "nodes_of (add_nodes mp empty_graph) = map fst mp"
    using nodes_add_nodes [of empty_graph mp] assms by (simp add: nodes_empty)
  show ?thesis unfolding distance_graph_def
    using nodes_rows [of mp "add_nodes mp empty_graph" mp] by (simp add: n)
qed

lemma distance_graph_edges:
  assumes "distinct (map fst mp)"
  shows "has_edges mp {(i, j). i \<in> fst ` set mp \<and> j \<in> fst ` set mp \<and> i \<noteq> j} (distance_graph mp)"
proof -
  have "has_edges mp {} (add_nodes mp empty_graph)"
    by (simp add: has_edges_def weight_add_nodes weight_empty)
  from has_edges_rows [OF assms subset_refl this]
  have "has_edges mp ({} \<union> {(i, j) | i j. i \<in> fst ` set mp \<and> j \<in> fst ` set mp \<and> j \<noteq> i}
                         \<union> {(j, i) | i j. i \<in> fst ` set mp \<and> j \<in> fst ` set mp \<and> j \<noteq> i})
          (distance_graph mp)"
    by (simp add: distance_graph_def)
  moreover have "({} \<union> {(i, j) | i j. i \<in> fst ` set mp \<and> j \<in> fst ` set mp \<and> j \<noteq> i}
                         \<union> {(j, i) | i j. i \<in> fst ` set mp \<and> j \<in> fst ` set mp \<and> j \<noteq> i})
      = {(i, j). i \<in> fst ` set mp \<and> j \<in> fst ` set mp \<and> i \<noteq> j}"
    by auto
  ultimately show ?thesis by simp
qed

lemma card_pairs:
  assumes "finite A"
  shows "card {{u, v} | u v. u \<in> A \<and> v \<in> A \<and> u \<noteq> v} = card A * (card A - 1) div 2"
proof -
  have "{{u, v} | u v. u \<in> A \<and> v \<in> A \<and> u \<noteq> v} = {B. B \<subseteq> A \<and> card B = 2}"
    by (auto simp: card_2_iff)
  then show ?thesis
    using n_subsets [OF assms, of 2] by (simp add: choose_two)
qed

text \<open>
  C7. For a candidate set of N rows with distinct labels, the graph built by lines 32 to 45
  has the labels as its nodes; two labels are joined by an edge exactly when they are
  different labels of the candidate set (complete, no self-loops); the weight of an edge
  is the Euclidean distance between the (latitude, longitude) pairs of its endpoints;
  there are N * (N - 1) / 2 unordered pairs joined by an edge; and every weight is
  non-negative and the same in both directions.
\<close>

theorem distance_graph_complete:
  assumes "distinct (map fst mp)"
  shows "nodes_of (distance_graph mp) = map fst mp \<and>
    (\<forall>u v. weight (distance_graph mp) u v \<noteq> None \<longleftrightarrow>
             u \<in> fst ` set mp \<and> v \<in> fst ` set mp \<and> u \<noteq> v) \<and>
    (\<forall>(i, ri) \<in> set mp. \<forall>(j, rj) \<in> set mp. i \<noteq> j \<longrightarrow>
       weight (distance_graph mp) i j =
         Some (sqrt ((latitude ri - latitude rj)\<^sup>2 + (longitude ri - longitude rj)\<^sup>2))) \<and>
    card {{u, v} | u v. weight (distance_graph mp) u v \<noteq> None}
      = length mp * (length mp - 1) div 2 \<and>
    (\<forall>u v w. weight (distance_graph mp) u v = Some w \<longrightarrow>
       0 \<le> w \<and> weight (distance_graph mp) v u = Some w)"
proof -
  let ?G = "distance_graph mp"
  let ?A = "fst ` set mp"
  have E: "weight ?G u v =
      (if u \<in> ?A \<and> v \<in> ?A \<and> u \<noteq> v then Some (row_dist mp u v) else None)" for u v
    using distance_graph_edges [OF assms] by (simp add: has_edges_def)
  have 1: "nodes_of ?G = map fst mp"
    by (rule distance_graph_nodes [OF assms])
  have 2: "\<forall>u v. weight ?G u v \<noteq> None \<longleftrightarrow> u \<in> ?A \<and> v \<in> ?A \<and> u \<noteq> v"
    by (simp add: E)
  have 3: "\<forall>(i, ri) \<in> set mp. \<forall>(j, rj) \<in> set mp. i \<noteq> j \<longrightarrow>
       weight ?G i j =
         Some (sqrt ((latitude ri - latitude rj)\<^sup>2 + (longitude ri - longitude rj)\<^sup>2))"
  proof (clarify)
    fix i ri j rj
    assume m: "(i, ri) \<in> set mp" "(j, rj) \<in> set mp" and ne: "i \<noteq> j"
    then have "map_of mp i = Some ri" "map_of mp j = Some rj"
      using assms by simp_all
    then have "row_dist mp i j = dist_rows ri rj" by (simp add: row_dist_def)
    moreover have "i \<in> ?A" "j \<in> ?A" using m by force+
    ultimately show "weight ?G i j =
         Some (sqrt ((latitude ri - latitude rj)\<^sup>2 + (longitude ri - longitude rj)\<^sup>2))"
      using ne by (simp add: E dist_rows_def)
  qed
  have "{{u, v} | u v. weight ?G u v \<noteq> None} = {{u, v} | u v. u \<in> ?A \<and> v \<in> ?A \<and> u \<noteq> v}"
    by (simp only: E option.simps if_distrib [of "\<lambda>x. x \<noteq> None"] if_bool_eq_conj simp_thms)
  moreover have "card ?A = length mp"
    using assms by (metis distinct_card length_map set_map)
  ultimately have 4: "card {{u, v} | u v. weight ?G u v \<noteq> None}
      = length mp * (length mp - 1) div 2"
    using card_pairs [of ?A] by simp
  have 5: "\<forall>u v w. weight ?G u v = Some w \<longrightarrow> 0 \<le> w \<and> weight ?G v u = Some w"
    by (auto simp: E row_dist_def dist_nonneg dist_sym split: if_splits)
  from 1 2 3 4 5 show ?thesis by (intro conjI)
qed

theorem distance_graph_complete_witness:
  "distinct (map fst exemplo_tres) \<and>
   nodes_of (distance_graph exemplo_tres) = [2, 0, 1] \<and>
   card {{u, v} | u v. weight (distance_graph exemplo_tres) u v \<noteq> None} = 3"
proof -
  have d: "distinct (map fst exemplo_tres)" by (simp add: exemplo_tres_def)
  have m: "map fst exemplo_tres = [2, 0, 1]" and l: "length exemplo_tres = 3"
    by (simp_all add: exemplo_tres_def)
  note th = distance_graph_complete [OF d]
  have n: "nodes_of (distance_graph exemplo_tres) = [2, 0, 1]"
    using th [THEN conjunct1] by (simp only: m)
  have "card {{u, v} | u v. weight (distance_graph exemplo_tres) u v \<noteq> None}
          = 3 * (3 - 1) div 2"
    using th [THEN conjunct2, THEN conjunct2, THEN conjunct2, THEN conjunct1]
    by (simp only: l)
  also have "\<dots> = 3" by simp
  finally show ?thesis using d n by (intro conjI)
qed

end
